theory Spec2Isabelle
  imports Complex_Main
begin

section \<open>Data model\<close>

text \<open>
  The program is \<^verbatim>\<open>code/PaytmLabs_challenge.py\<close>. A client is identified by its IP string,
  a resource by its URL string. A Python \<^verbatim>\<open>datetime\<close> is a point of the time line with
  microsecond resolution; it is modelled as a rational number of seconds, and the
  difference of two of them, a \<^verbatim>\<open>timedelta\<close>, is exact. The session window is a Python
  \<^verbatim>\<open>int\<close> (\<^verbatim>\<open>argparse\<close> with \<^verbatim>\<open>type=int\<close>, or an index plus one).

  A Python \<^verbatim>\<open>float\<close> is a double, and every double is a rational number, so a float
  value is a \<open>rat\<close>; comparing a float with an \<^verbatim>\<open>int\<close> is exact in Python. A float
  operation returns the exact result rounded to a double. The rounding is the parameter
  \<open>rnd\<close> of the functions that compute with floats: \<open>rnd x\<close> stands for the double
  nearest to \<open>x\<close>. Integers beyond the range of a double, which no count taken from a
  log reaches, are outside the model.
\<close>

type_synonym client = string
type_synonym url = string
type_synonym timestamp = rat
type_synonym minutes = rat

datatype py_error = IndexError | KeyError | ZeroDivisionError | ValueError

text \<open>
  The list \<^verbatim>\<open>lts\<close> of \<^verbatim>\<open>getPageDurations\<close> holds two shapes of element: the
  datetime itself (\<^verbatim>\<open>lts = [dat[0][0]]\<close>) and a one-element list around a datetime
  (\<^verbatim>\<open>lts.append([j[0]])\<close>).
\<close>

datatype ts_entry = Bare timestamp | Wrapped "timestamp list"

text \<open>
  \<^verbatim>\<open>(cid, [lurls, lts, ldurs])\<close>, the value of \<^verbatim>\<open>getPageDurations\<close>, and
  \<^verbatim>\<open>(cid, [lsess_durs, lsess_urls, lsess_ts])\<close>, an element of the value of
  \<^verbatim>\<open>getSessions\<close>.
\<close>

type_synonym timeline = "client \<times> (url list \<times> ts_entry list \<times> minutes list)"
type_synonym session = "client \<times> (minutes list \<times> url list \<times> ts_entry list)"

definition sess_durs :: "session \<Rightarrow> minutes list" where
  "sess_durs s = fst (snd s)"

definition sess_urls :: "session \<Rightarrow> url list" where
  "sess_urls s = fst (snd (snd s))"

definition sess_ts :: "session \<Rightarrow> ts_entry list" where
  "sess_ts s = snd (snd (snd s))"

text \<open>The events of a session: its resources paired with their timestamps, in order.\<close>

definition sess_events :: "session \<Rightarrow> (url \<times> ts_entry) list" where
  "sess_events s = zip (sess_urls s) (sess_ts s)"

text \<open>
  The number of distinct resources of a session, \<^verbatim>\<open>len(set(dat[1]))\<close> in the main
  program (\<^verbatim>\<open>d8b_page_hits_RDD\<close>).
\<close>

definition session_hits :: "session \<Rightarrow> nat" where
  "session_hits s = length (remdups (sess_urls s))"

section \<open>Timeline Builder: getPageDurations\<close>

text \<open>
  One round of \<^verbatim>\<open>for i, j in zip(dat[:-1], dat[1:])\<close>: the three appends.
  \<^verbatim>\<open>td.total_seconds()\<close> is the float of the exact difference \<open>td\<close>, and
  \<^verbatim>\<open>/ 60.0\<close> a float division: two roundings.
\<close>

definition page_step ::
  "(rat \<Rightarrow> rat) \<Rightarrow> (timestamp \<times> url) \<times> (timestamp \<times> url)
    \<Rightarrow> url list \<times> ts_entry list \<times> minutes list
    \<Rightarrow> url list \<times> ts_entry list \<times> minutes list" where
  "page_step rnd ij acc =
     (case ij of (i, j) \<Rightarrow>
        (case acc of (lurls, lts, ldurs) \<Rightarrow>
           (let td = fst j - fst i in
            (lurls @ [snd j], lts @ [Wrapped [fst j]], ldurs @ [rnd (rnd td / 60)]))))"

text \<open>\<^verbatim>\<open>dat[0]\<close> raises IndexError on an empty list.\<close>

definition getPageDurations ::
  "(rat \<Rightarrow> rat) \<Rightarrow> client \<times> (timestamp \<times> url) list \<Rightarrow> py_error + timeline" where
  "getPageDurations rnd lin =
     (let cid = fst lin; dat = snd lin in
      case dat of
        [] \<Rightarrow> Inl IndexError
      | d0 # _ \<Rightarrow>
          Inr (cid, fold (page_step rnd) (zip (butlast dat) (tl dat))
                      ([snd d0], [Bare (fst d0)], [0])))"

section \<open>Sessionizer: getSessions\<close>

text \<open>
  The loop over \<^verbatim>\<open>zip(dat[0], dat[1], dat[2])\<close> with its four variables
  \<^verbatim>\<open>lsessions, lsess_durs, lsess_urls, lsess_ts\<close>; the empty list of rounds is the
  code after the loop, the last \<^verbatim>\<open>lsessions.append\<close>.
\<close>

fun sess_loop ::
  "int \<Rightarrow> client \<Rightarrow> (url \<times> ts_entry \<times> minutes) list \<Rightarrow> session list
    \<Rightarrow> minutes list \<times> url list \<times> ts_entry list \<Rightarrow> session list" where
  "sess_loop w cid [] lsessions cur = lsessions @ [(cid, cur)]"
| "sess_loop w cid ((url, ts, dur) # rest) lsessions (lsess_durs, lsess_urls, lsess_ts) =
     (if dur < of_int w
      then sess_loop w cid rest lsessions
             (lsess_durs @ [dur], lsess_urls @ [url], lsess_ts @ [ts])
      else sess_loop w cid rest
             (lsessions @ [(cid, (lsess_durs, lsess_urls, lsess_ts))])
             ([0], [url], [ts]))"

text \<open>The first argument is \<^verbatim>\<open>SESSION_WINDOW_BC.value\<close>.\<close>

definition getSessions :: "int \<Rightarrow> timeline \<Rightarrow> session list" where
  "getSessions w lin =
     (let cid = fst lin; dat = snd lin in
      case dat of (urls, tss, durs) \<Rightarrow>
        sess_loop w cid (zip urls (zip tss durs)) [] ([], [], []))"

section \<open>Window Sweep Analyzer: getSessionsURLHits\<close>

definition SESSION_WINDOW_MAX :: int where
  "SESSION_WINDOW_MAX = 40"

text \<open>
  The inner loop over \<^verbatim>\<open>zip(dat[0], dat[2])\<close> and the append after it;
  \<^verbatim>\<open>len(set(lsess_urls))\<close> is the length of the list without its duplicates.
\<close>

fun hits_loop :: "int \<Rightarrow> (url \<times> minutes) list \<Rightarrow> url list \<Rightarrow> nat list \<Rightarrow> nat list" where
  "hits_loop period [] lsess_urls lsession_hits =
     lsession_hits @ [length (remdups lsess_urls)]"
| "hits_loop period ((url, dur) # rest) lsess_urls lsession_hits =
     (if dur < of_int period
      then hits_loop period rest (lsess_urls @ [url]) lsession_hits
      else hits_loop period rest [url] (lsession_hits @ [length (remdups lsess_urls)]))"

text \<open>
  \<^verbatim>\<open>xs[i] += 1\<close> under Python's index rule: a negative index counts from the end of the
  list. The tally calls it on a list of 7 entries with an index from -1 to 5, where no
  IndexError can arise.
\<close>

definition incr_at :: "int list \<Rightarrow> int \<Rightarrow> int list" where
  "incr_at xs i =
     (let j = nat (if i < 0 then int (length xs) + i else i) in xs[j := xs ! j + 1])"

fun tally_loop :: "nat list \<Rightarrow> int list \<Rightarrow> int list" where
  "tally_loop [] lpage_hits = lpage_hits"
| "tally_loop (spages # rest) lpage_hits =
     (if spages \<le> 5
      then tally_loop rest (incr_at lpage_hits (int spages - 1))
      else tally_loop rest (incr_at lpage_hits 5))"

text \<open>
  \<^verbatim>\<open>lpage_hits = [0] * 7\<close>, \<^verbatim>\<open>lpage_hits[6] += len(lsession_hits)\<close>, then the loop.
\<close>

definition page_hits :: "nat list \<Rightarrow> int list" where
  "page_hits lsession_hits =
     (let z = replicate 7 (0::int) in
      tally_loop lsession_hits (z[6 := z ! 6 + int (length lsession_hits)]))"

text \<open>
  The first argument is \<^verbatim>\<open>SESSION_WINDOW_MAX_BC.value\<close>; \<^verbatim>\<open>range(1, m)\<close> is the list
  of the integers from 1 to \<open>m - 1\<close>.
\<close>

definition getSessionsURLHits :: "int \<Rightarrow> timeline \<Rightarrow> client \<times> int list list" where
  "getSessionsURLHits window_max lin =
     (let cid = fst lin; dat = snd lin in
      case dat of (urls, tss, durs) \<Rightarrow>
        (cid, map (\<lambda>period. page_hits (hits_loop period (zip urls durs) [] []))
                [1..window_max - 1]))"

text \<open>
  The reduction of the main program,
  \<^verbatim>\<open>reduce(lambda a, b: [map(sum, zip(x, y)) for x, y in zip(a, b)])\<close>.
  Spark's \<^verbatim>\<open>reduce\<close> raises ValueError on an empty RDD and otherwise combines the
  elements in an order of its own; the model combines them from the left.
\<close>

definition hist_add :: "int list list \<Rightarrow> int list list \<Rightarrow> int list list" where
  "hist_add a b = map (\<lambda>(x, y). map (\<lambda>(p, q). p + q) (zip x y)) (zip a b)"

definition rdd_reduce :: "('a \<Rightarrow> 'a \<Rightarrow> 'a) \<Rightarrow> 'a list \<Rightarrow> py_error + 'a" where
  "rdd_reduce f xs = (case xs of [] \<Rightarrow> Inl ValueError | x # rest \<Rightarrow> Inr (foldl f x rest))"

definition lsess_window_stats :: "int \<Rightarrow> timeline list \<Rightarrow> py_error + int list list" where
  "lsess_window_stats window_max d5 =
     rdd_reduce hist_add (map (\<lambda>lin. snd (getSessionsURLHits window_max lin)) d5)"

section \<open>Percentages: getSessionWindowStats and the engagement record\<close>

definition list_get :: "'a list \<Rightarrow> nat \<Rightarrow> py_error + 'a" where
  "list_get xs i = (if i < length xs then Inr (xs ! i) else Inl IndexError)"

text \<open>
  \<^verbatim>\<open>(x[j] * 100.0) / x[6]\<close>: the two reads in the order Python makes them, then the
  division, which raises ZeroDivisionError on a zero divisor (the float of an \<^verbatim>\<open>int\<close>
  is 0.0 only for 0). Both operands are \<^verbatim>\<open>int\<close>s turned into floats, and the product
  and the quotient are rounded.
\<close>

definition percentage :: "(rat \<Rightarrow> rat) \<Rightarrow> nat \<Rightarrow> int list \<Rightarrow> py_error + rat" where
  "percentage rnd j x =
     (case list_get x j of
        Inl e \<Rightarrow> Inl e
      | Inr xj \<Rightarrow>
          (case list_get x 6 of
             Inl e \<Rightarrow> Inl e
           | Inr x6 \<Rightarrow>
               if x6 = 0 then Inl ZeroDivisionError
               else Inr (rnd (rnd (rnd (of_int xj) * 100) / rnd (of_int x6)))))"

text \<open>A list comprehension stops at the first element that raises.\<close>

fun collect :: "(py_error + 'a) list \<Rightarrow> py_error + 'a list" where
  "collect [] = Inr []"
| "collect (r # rs) =
     (case r of
        Inl e \<Rightarrow> Inl e
      | Inr v \<Rightarrow> (case collect rs of Inl e \<Rightarrow> Inl e | Inr vs \<Rightarrow> Inr (v # vs)))"

fun stats_loop ::
  "(rat \<Rightarrow> rat) \<Rightarrow> nat list \<Rightarrow> int list list \<Rightarrow> (nat \<rightharpoonup> rat list)
    \<Rightarrow> py_error + (nat \<rightharpoonup> rat list)" where
  "stats_loop rnd [] lsws lpg_sess_stats = Inr lpg_sess_stats"
| "stats_loop rnd (j # js) lsws lpg_sess_stats =
     (case collect (map (percentage rnd j) lsws) of
        Inl e \<Rightarrow> Inl e
      | Inr row \<Rightarrow> stats_loop rnd js lsws (lpg_sess_stats(j \<mapsto> row)))"

definition getSessionWindowStats ::
  "(rat \<Rightarrow> rat) \<Rightarrow> int list list \<Rightarrow> py_error + (nat \<rightharpoonup> rat list)" where
  "getSessionWindowStats rnd lsws =
     (let page_nums = 6 in stats_loop rnd [0..<page_nums] lsws Map.empty)"

text \<open>
  The function mapped over \<^verbatim>\<open>d13_engagement_RDD\<close>: its argument is
  \<^verbatim>\<open>(cid, ([total page hits, number of sessions], total duration))\<close>, the number of
  sessions a float (a sum of \<^verbatim>\<open>1.0\<close>), and both averages divide by it: float
  divisions, the first of the \<^verbatim>\<open>int\<close> of page hits turned into a float.
\<close>

definition d14_total_engagement ::
  "(rat \<Rightarrow> rat) \<Rightarrow> client \<times> ((int \<times> rat) \<times> rat) \<Rightarrow> py_error + client \<times> rat list" where
  "d14_total_engagement rnd rec =
     (case rec of (cid, ((hits, cnt), dur)) \<Rightarrow>
        if cnt = 0 then Inl ZeroDivisionError
        else Inr (cid, [of_int hits, dur, rnd (rnd (of_int hits) / cnt), rnd (dur / cnt), cnt]))"

section \<open>Optimal Window Selector: getOptimalSessionWindow\<close>

definition num_cohorts :: nat where
  "num_cohorts = 2"

text \<open>
  The loop over \<^verbatim>\<open>range(len(lpg_sess_stats[pg_vw]) - 1)\<close> with \<^verbatim>\<open>num_ind\<close> and
  \<^verbatim>\<open>lind\<close>; the \<^verbatim>\<open>break\<close> leaves it with the list as it is. The calls of
  \<^verbatim>\<open>plt\<close> draw a figure and do not touch the result; they are left out. The entries
  of the series are compared only, so any linear order stands for them.
\<close>

fun cohort_loop :: "('a::linorder) list \<Rightarrow> nat list \<Rightarrow> nat \<Rightarrow> nat list \<Rightarrow> nat list" where
  "cohort_loop p [] num_ind lind = lind"
| "cohort_loop p (k # ks) num_ind lind =
     (if p ! (k + 1) > p ! k
      then (if num_ind + 1 \<ge> num_cohorts then lind @ [k]
            else cohort_loop p ks (num_ind + 1) (lind @ [k]))
      else cohort_loop p ks num_ind lind)"

text \<open>\<^verbatim>\<open>lpg_sess_stats[pg_vw]\<close> raises KeyError when the dict has no key 0.\<close>

definition getOptimalSessionWindow :: "(nat \<rightharpoonup> ('a::linorder) list) \<Rightarrow> py_error + nat list" where
  "getOptimalSessionWindow lpg_sess_stats =
     (let pg_vw = 0 in
      case lpg_sess_stats pg_vw of
        None \<Rightarrow> Inl KeyError
      | Some p \<Rightarrow> Inr (cohort_loop p [0..<length p - 1] 0 []))"

section \<open>The Timeline Builder\<close>

lemma fold_page_step:
  "fold (page_step rnd) ps (a, b, c) =
     (a @ map (\<lambda>ij. snd (snd ij)) ps,
      b @ map (\<lambda>ij. Wrapped [fst (snd ij)]) ps,
      c @ map (\<lambda>ij. rnd (rnd (fst (snd ij) - fst (fst ij)) / 60)) ps)"
  by (induction ps arbitrary: a b c) (auto simp: page_step_def Let_def split: prod.splits)

lemma zip_butlast_tl: "zip (butlast (x # xs)) xs = zip (x # xs) xs"
  by (induction xs arbitrary: x) auto

lemma map_snd_zip_shift: "map snd (zip (x # xs) xs) = xs"
  by (induction xs arbitrary: x) auto

lemma getPageDurations_Cons:
  "getPageDurations rnd (cid, d0 # rest) =
     Inr (cid, (map snd (d0 # rest),
                Bare (fst d0) # map (\<lambda>j. Wrapped [fst j]) rest,
                0 # map (\<lambda>ij. rnd (rnd (fst (snd ij) - fst (fst ij)) / 60)) (zip (d0 # rest) rest)))"
proof -
  have s: "map snd (zip (d0 # rest) rest) = rest"
    by (rule map_snd_zip_shift)
  have m1: "map (\<lambda>ij. snd (snd ij)) (zip (d0 # rest) rest) = map snd rest"
    using arg_cong [OF s, of "map snd"] by (simp add: comp_def)
  have m2: "map (\<lambda>ij. Wrapped [fst (snd ij)]) (zip (d0 # rest) rest)
              = map (\<lambda>j. Wrapped [fst j]) rest"
    using arg_cong [OF s, of "map (\<lambda>j. Wrapped [fst j])"] by (simp add: comp_def)
  have "fold (page_step rnd) (zip (butlast (d0 # rest)) rest) ([snd d0], [Bare (fst d0)], [0])
          = (map snd (d0 # rest),
             Bare (fst d0) # map (\<lambda>j. Wrapped [fst j]) rest,
             0 # map (\<lambda>ij. rnd (rnd (fst (snd ij) - fst (fst ij)) / 60)) (zip (d0 # rest) rest))"
    unfolding zip_butlast_tl fold_page_step m1 m2 by simp
  then show ?thesis
    unfolding getPageDurations_def Let_def by simp
qed

text \<open>
  C8. For a non-empty event list sorted by timestamp, \<^verbatim>\<open>getPageDurations\<close> returns
  three lists as long as the input; the gap list starts with 0, and its entry \<open>i > 0\<close> is
  the time from event \<open>i - 1\<close> to event \<open>i\<close> in minutes as the floats give it: the
  difference in seconds, made a float and divided by 60.0. It is not negative, since
  rounding to a double keeps the order and maps 0 to 0. It is the exact quotient wherever
  the two roundings are exact, and it differs from the exact quotient by at most the
  relative error \<open>2 * eps + eps\<^sup>2\<close> wherever each of the two roundings has a relative error of
  at most \<open>eps\<close>. A single event gives the gap list \<open>[0]\<close>.
\<close>

theorem getPageDurations_gaps:
  assumes ne: "dat \<noteq> []" and srt: "sorted (map fst dat)"
    and mono: "\<forall>x y. x \<le> y \<longrightarrow> rnd x \<le> rnd y" and zero: "rnd 0 = 0"
  shows "\<exists>lurls lts ldurs.
           getPageDurations rnd (cid, dat) = Inr (cid, (lurls, lts, ldurs)) \<and>
           length ldurs = length dat \<and> length lurls = length dat \<and> length lts = length dat \<and>
           ldurs ! 0 = 0 \<and>
           (\<forall>i. 0 < i \<and> i < length dat \<longrightarrow>
              ldurs ! i = rnd (rnd (fst (dat ! i) - fst (dat ! (i - 1))) / 60) \<and>
              0 \<le> ldurs ! i \<and>
              (rnd (fst (dat ! i) - fst (dat ! (i - 1))) = fst (dat ! i) - fst (dat ! (i - 1)) \<and>
               rnd ((fst (dat ! i) - fst (dat ! (i - 1))) / 60)
                 = (fst (dat ! i) - fst (dat ! (i - 1))) / 60 \<longrightarrow>
               ldurs ! i = (fst (dat ! i) - fst (dat ! (i - 1))) / 60) \<and>
              (\<forall>eps. 0 \<le> eps \<and>
                 \<bar>rnd (fst (dat ! i) - fst (dat ! (i - 1))) - (fst (dat ! i) - fst (dat ! (i - 1)))\<bar>
                   \<le> eps * (fst (dat ! i) - fst (dat ! (i - 1))) \<and>
                 \<bar>ldurs ! i - rnd (fst (dat ! i) - fst (dat ! (i - 1))) / 60\<bar>
                   \<le> eps * (rnd (fst (dat ! i) - fst (dat ! (i - 1))) / 60) \<longrightarrow>
                 \<bar>ldurs ! i - (fst (dat ! i) - fst (dat ! (i - 1))) / 60\<bar>
                   \<le> (2 * eps + eps * eps) * ((fst (dat ! i) - fst (dat ! (i - 1))) / 60))) \<and>
           (length dat = 1 \<longrightarrow> ldurs = [0])"
proof -
  from ne obtain d0 rest where dat: "dat = d0 # rest"
    by (cases dat) auto
  let ?gap = "\<lambda>ij::(timestamp \<times> url) \<times> (timestamp \<times> url).
                rnd (rnd (fst (snd ij) - fst (fst ij)) / 60)"
  let ?ldurs = "0 # map ?gap (zip (d0 # rest) rest)"
  have gaps: "?ldurs ! i = rnd (rnd (fst (dat ! i) - fst (dat ! (i - 1))) / 60) \<and>
              0 \<le> fst (dat ! i) - fst (dat ! (i - 1))"
    if i: "0 < i" "i < length dat" for i
  proof -
    from i obtain k where k: "i = Suc k" "k < length rest"
      by (cases i) (auto simp: dat)
    have v: "?ldurs ! i = rnd (rnd (fst (rest ! k) - fst ((d0 # rest) ! k)) / 60)"
      using k by simp
    have kk: "k < length dat" "Suc k < length dat"
      using k by (simp_all add: dat)
    have "map fst dat ! k \<le> map fst dat ! Suc k"
      using sorted_nth_mono [OF srt, of k "Suc k"] kk by simp
    then have "fst (dat ! k) \<le> fst (dat ! Suc k)"
      using kk by (simp only: nth_map)
    then have "0 \<le> fst (dat ! Suc k) - fst (dat ! k)"
      by simp
    with v show ?thesis
      by (simp add: k dat)
  qed
  have step: "?ldurs ! i = rnd (rnd td / 60) \<and> 0 \<le> ?ldurs ! i \<and>
       (rnd td = td \<and> rnd (td / 60) = td / 60 \<longrightarrow> ?ldurs ! i = td / 60) \<and>
       (\<forall>eps. 0 \<le> eps \<and> \<bar>rnd td - td\<bar> \<le> eps * td \<and>
               \<bar>?ldurs ! i - rnd td / 60\<bar> \<le> eps * (rnd td / 60) \<longrightarrow>
               \<bar>?ldurs ! i - td / 60\<bar> \<le> (2 * eps + eps * eps) * (td / 60))"
    if i: "0 < i" "i < length dat" and td: "td = fst (dat ! i) - fst (dat ! (i - 1))" for i td
  proof -
    from gaps [OF i] have g: "?ldurs ! i = rnd (rnd td / 60)" and p: "0 \<le> td"
      unfolding td by simp_all
    from p mono have "rnd 0 \<le> rnd td"
      by blast
    then have "0 \<le> rnd td / 60"
      by (simp add: zero)
    with mono have "rnd 0 \<le> rnd (rnd td / 60)"
      by blast
    then have nn: "0 \<le> ?ldurs ! i"
      unfolding g by (simp add: zero)
    have ex: "?ldurs ! i = td / 60" if "rnd td = td" "rnd (td / 60) = td / 60"
      unfolding g using that by simp
    have err: "\<bar>?ldurs ! i - td / 60\<bar> \<le> (2 * eps + eps * eps) * (td / 60)"
      if e: "0 \<le> eps" and e1: "\<bar>rnd td - td\<bar> \<le> eps * td"
        and e2: "\<bar>?ldurs ! i - rnd td / 60\<bar> \<le> eps * (rnd td / 60)" for eps
    proof -
      from e1 have "rnd td \<le> td + eps * td"
        by linarith
      then have "rnd td / 60 \<le> (td + eps * td) / 60"
        by simp
      from mult_left_mono [OF this e]
      have "eps * (rnd td / 60) \<le> eps * ((td + eps * td) / 60)" .
      with e2 have b: "\<bar>?ldurs ! i - rnd td / 60\<bar> \<le> eps * ((td + eps * td) / 60)"
        by linarith
      from e1 have a: "\<bar>rnd td / 60 - td / 60\<bar> \<le> eps * td / 60"
        by linarith
      have "\<bar>?ldurs ! i - td / 60\<bar> \<le> \<bar>?ldurs ! i - rnd td / 60\<bar> + \<bar>rnd td / 60 - td / 60\<bar>"
        by linarith
      also have "\<dots> \<le> eps * ((td + eps * td) / 60) + eps * td / 60"
        using a b by linarith
      also have "\<dots> = (2 * eps + eps * eps) * (td / 60)"
        by (simp add: algebra_simps)
      finally show ?thesis .
    qed
    from g nn ex err show ?thesis
      by blast
  qed
  let ?lurls = "map snd dat"
  let ?lts = "Bare (fst d0) # map (\<lambda>j. Wrapped [fst j]) rest"
  have r: "getPageDurations rnd (cid, dat) = Inr (cid, (?lurls, ?lts, ?ldurs))"
    unfolding dat by (rule getPageDurations_Cons)
  have l: "length ?ldurs = length dat" "length ?lurls = length dat" "length ?lts = length dat"
    by (simp_all add: dat)
  have z: "?ldurs ! 0 = 0"
    by simp
  have g: "\<forall>i. 0 < i \<and> i < length dat \<longrightarrow>
     ?ldurs ! i = rnd (rnd (fst (dat ! i) - fst (dat ! (i - 1))) / 60) \<and>
     0 \<le> ?ldurs ! i \<and>
     (rnd (fst (dat ! i) - fst (dat ! (i - 1))) = fst (dat ! i) - fst (dat ! (i - 1)) \<and>
      rnd ((fst (dat ! i) - fst (dat ! (i - 1))) / 60)
        = (fst (dat ! i) - fst (dat ! (i - 1))) / 60 \<longrightarrow>
      ?ldurs ! i = (fst (dat ! i) - fst (dat ! (i - 1))) / 60) \<and>
     (\<forall>eps. 0 \<le> eps \<and>
        \<bar>rnd (fst (dat ! i) - fst (dat ! (i - 1))) - (fst (dat ! i) - fst (dat ! (i - 1)))\<bar>
          \<le> eps * (fst (dat ! i) - fst (dat ! (i - 1))) \<and>
        \<bar>?ldurs ! i - rnd (fst (dat ! i) - fst (dat ! (i - 1))) / 60\<bar>
          \<le> eps * (rnd (fst (dat ! i) - fst (dat ! (i - 1))) / 60) \<longrightarrow>
        \<bar>?ldurs ! i - (fst (dat ! i) - fst (dat ! (i - 1))) / 60\<bar>
          \<le> (2 * eps + eps * eps) * ((fst (dat ! i) - fst (dat ! (i - 1))) / 60))"
  proof (intro allI impI)
    fix i assume "0 < i \<and> i < length dat"
    then have i: "0 < i" "i < length dat" by simp_all
    from step [OF i refl] show
      "?ldurs ! i = rnd (rnd (fst (dat ! i) - fst (dat ! (i - 1))) / 60) \<and>
     0 \<le> ?ldurs ! i \<and>
     (rnd (fst (dat ! i) - fst (dat ! (i - 1))) = fst (dat ! i) - fst (dat ! (i - 1)) \<and>
      rnd ((fst (dat ! i) - fst (dat ! (i - 1))) / 60)
        = (fst (dat ! i) - fst (dat ! (i - 1))) / 60 \<longrightarrow>
      ?ldurs ! i = (fst (dat ! i) - fst (dat ! (i - 1))) / 60) \<and>
     (\<forall>eps. 0 \<le> eps \<and>
        \<bar>rnd (fst (dat ! i) - fst (dat ! (i - 1))) - (fst (dat ! i) - fst (dat ! (i - 1)))\<bar>
          \<le> eps * (fst (dat ! i) - fst (dat ! (i - 1))) \<and>
        \<bar>?ldurs ! i - rnd (fst (dat ! i) - fst (dat ! (i - 1))) / 60\<bar>
          \<le> eps * (rnd (fst (dat ! i) - fst (dat ! (i - 1))) / 60) \<longrightarrow>
        \<bar>?ldurs ! i - (fst (dat ! i) - fst (dat ! (i - 1))) / 60\<bar>
          \<le> (2 * eps + eps * eps) * ((fst (dat ! i) - fst (dat ! (i - 1))) / 60))" .
  qed
  have one: "length dat = 1 \<longrightarrow> ?ldurs = [0]"
    by (simp add: dat)
  from r l z g one show ?thesis
    by blast
qed

theorem getPageDurations_gaps_witness:
  "\<exists>lurls lts ldurs.
      getPageDurations (\<lambda>x. of_int (round (x * 1024)) / 1024)
          (''c'', [(0, ''A''), (1, ''B''), (61, ''C'')])
        = Inr (''c'', (lurls, lts, ldurs)) \<and>
      length ldurs = 3 \<and> ldurs ! 0 = 0 \<and> ldurs ! 1 = 17 / 1024 \<and> ldurs ! 2 = 1"
proof -
  let ?rnd = "\<lambda>x :: rat. of_int (round (x * 1024)) / 1024 :: rat"
  let ?dat = "[(0, ''A''), (1, ''B''), (61, ''C'')] :: (timestamp \<times> url) list"
  have ne: "?dat \<noteq> []" by simp
  have srt: "sorted (map fst ?dat)" by simp
  have mono: "\<forall>x y. x \<le> y \<longrightarrow> ?rnd x \<le> ?rnd y"
  proof (intro allI impI)
    fix x y :: rat
    assume "x \<le> y"
    then have "x * 1024 \<le> y * 1024" by simp
    then have "round (x * 1024) \<le> round (y * 1024)" by (rule round_mono)
    then show "?rnd x \<le> ?rnd y" by (simp add: divide_right_mono)
  qed
  have zero: "?rnd 0 = 0" by simp
  have r1: "?rnd 1 = 1" by simp
  have r60: "?rnd 60 = 60" by simp
  have q1: "?rnd (1 / 60) = 17 / 1024"
  proof -
    have "round ((1 / 60 :: rat) * 1024) = 17"
      unfolding round_def by (rule floor_unique) simp_all
    then show ?thesis by simp
  qed
  have q60: "?rnd (60 / 60) = 1" by simp
  from getPageDurations_gaps [of ?dat ?rnd "''c''", OF ne srt mono zero]
  obtain lurls lts ldurs where
    r: "getPageDurations ?rnd (''c'', ?dat) = Inr (''c'', (lurls, lts, ldurs))"
    and l: "length ldurs = length ?dat"
    and z: "ldurs ! 0 = 0"
    and g: "\<And>i. 0 < i \<and> i < length ?dat \<Longrightarrow>
              ldurs ! i = ?rnd (?rnd (fst (?dat ! i) - fst (?dat ! (i - 1))) / 60)"
    by blast
  from g [of 1] have "ldurs ! 1 = ?rnd (?rnd 1 / 60)" by simp
  then have g1: "ldurs ! 1 = 17 / 1024"
    unfolding r1 q1 .
  from g [of 2] have "ldurs ! 2 = ?rnd (?rnd 60 / 60)" by simp
  then have g2: "ldurs ! 2 = 1"
    unfolding r60 q60 .
  from r l z g1 g2 show ?thesis
    by simp
qed

section \<open>The Sessionizer\<close>

lemma sess_loop_urls:
  "concat (map sess_urls (sess_loop w cid evs ls (d, u, t)))
     = concat (map sess_urls ls) @ u @ map fst evs"
  by (induction evs arbitrary: ls d u t) (auto simp: sess_urls_def)

lemma sess_loop_ts:
  "concat (map sess_ts (sess_loop w cid evs ls (d, u, t)))
     = concat (map sess_ts ls) @ t @ map (\<lambda>e. fst (snd e)) evs"
  by (induction evs arbitrary: ls d u t) (auto simp: sess_ts_def)

lemma sess_loop_events:
  "length u = length t \<Longrightarrow>
   concat (map sess_events (sess_loop w cid evs ls (d, u, t)))
     = concat (map sess_events ls) @ zip u t @ map (\<lambda>e. (fst e, fst (snd e))) evs"
  by (induction evs arbitrary: ls d u t) (auto simp: sess_events_def sess_urls_def sess_ts_def)

lemma sess_loop_shape:
  "s \<in> set (sess_loop w cid evs ls cur) \<Longrightarrow>
   length (fst cur) = length (fst (snd cur)) \<Longrightarrow>
   length (fst (snd cur)) = length (snd (snd cur)) \<Longrightarrow>
   s \<in> set ls \<or>
   (fst s = cid \<and> length (sess_durs s) = length (sess_urls s) \<and>
    length (sess_urls s) = length (sess_ts s))"
  by (induction w cid evs ls cur rule: sess_loop.induct)
     (auto simp: sess_durs_def sess_urls_def sess_ts_def split: if_splits)

lemma map_pair_zip: "map (\<lambda>e. (f e, g e)) xs = zip (map f xs) (map g xs)"
  by (induction xs) auto

lemma zip3_fst: "length urls = length durs \<Longrightarrow> length tss = length durs \<Longrightarrow>
   map fst (zip urls (zip tss durs)) = urls"
  by simp

lemma zip3_snd: "length urls = length durs \<Longrightarrow> length tss = length durs \<Longrightarrow>
   map (\<lambda>e. fst (snd e)) (zip urls (zip tss durs)) = tss"
proof -
  assume a: "length urls = length durs" "length tss = length durs"
  have "map (\<lambda>e. fst (snd e)) (zip urls (zip tss durs)) = map fst (map snd (zip urls (zip tss durs)))"
    by simp
  also have "\<dots> = map fst (zip tss durs)" using a by simp
  also have "\<dots> = tss" using a by simp
  finally show ?thesis .
qed

lemma zip3_events: "length urls = length durs \<Longrightarrow> length tss = length durs \<Longrightarrow>
   map (\<lambda>e. (fst e, fst (snd e))) (zip urls (zip tss durs)) = zip urls tss"
proof -
  assume a: "length urls = length durs" "length tss = length durs"
  let ?z = "zip urls (zip tss durs)"
  have "map (\<lambda>e. (fst e, fst (snd e))) ?z = zip (map fst ?z) (map (\<lambda>e. fst (snd e)) ?z)"
    by (rule map_pair_zip)
  then show ?thesis
    unfolding zip3_fst [OF a] zip3_snd [OF a] .
qed

text \<open>
  C1. For every window and every timeline (three lists of one length), the sessions of
  \<^verbatim>\<open>getSessions\<close>, read in order, hold the timeline's events: the concatenation of
  their event lists is the list of the timeline's events, so every event appears once, none
  is dropped or repeated, and the order is kept. Each session carries the client's id and
  three lists of one length.
\<close>

theorem getSessions_partition:
  assumes "length urls = length durs" and "length tss = length durs"
  shows "concat (map sess_events (getSessions w (cid, (urls, tss, durs)))) = zip urls tss \<and>
         concat (map sess_urls (getSessions w (cid, (urls, tss, durs)))) = urls \<and>
         concat (map sess_ts (getSessions w (cid, (urls, tss, durs)))) = tss \<and>
         (\<forall>s \<in> set (getSessions w (cid, (urls, tss, durs))).
            fst s = cid \<and> length (sess_durs s) = length (sess_urls s) \<and>
            length (sess_urls s) = length (sess_ts s))"
proof -
  let ?evs = "zip urls (zip tss durs)"
  have g: "getSessions w (cid, (urls, tss, durs)) = sess_loop w cid ?evs [] ([], [], [])"
    by (simp add: getSessions_def)
  have "concat (map sess_events (sess_loop w cid ?evs [] ([], [], []))) = zip urls tss"
    using sess_loop_events [of "[]" "[]" w cid ?evs "[]" "[]"] zip3_events [OF assms] by simp
  moreover have "concat (map sess_urls (sess_loop w cid ?evs [] ([], [], []))) = urls"
    using sess_loop_urls [of w cid ?evs "[]" "[]" "[]" "[]"] zip3_fst [OF assms] by simp
  moreover have "concat (map sess_ts (sess_loop w cid ?evs [] ([], [], []))) = tss"
    using sess_loop_ts [of w cid ?evs "[]" "[]" "[]" "[]"] zip3_snd [OF assms] by simp
  moreover have "fst s = cid \<and> length (sess_durs s) = length (sess_urls s) \<and>
            length (sess_urls s) = length (sess_ts s)"
    if "s \<in> set (sess_loop w cid ?evs [] ([], [], []))" for s
    using sess_loop_shape [OF that] by simp
  ultimately show ?thesis
    unfolding g by blast
qed

theorem getSessions_partition_witness:
  "concat (map sess_events (getSessions 15 (''c'', ([''A'', ''B'', ''C''],
       [Bare 0, Wrapped [300], Wrapped [1500]], [0, 5, 20]))))
     = [(''A'', Bare 0), (''B'', Wrapped [300]), (''C'', Wrapped [1500])] \<and>
   getSessions 15 (''c'', ([''A'', ''B'', ''C''],
       [Bare 0, Wrapped [300], Wrapped [1500]], [0, 5, 20]))
     = [(''c'', ([0, 5], [''A'', ''B''], [Bare 0, Wrapped [300]])),
        (''c'', ([0], [''C''], [Wrapped [1500]]))]"
proof -
  have "length [''A'', ''B'', ''C''] = length [0, 5, 20 :: minutes]"
    and "length [Bare 0, Wrapped [300], Wrapped [1500]] = length [0, 5, 20 :: minutes]"
    by simp_all
  from getSessions_partition [OF this, of 15 "''c''"]
  have "concat (map sess_events (getSessions 15 (''c'', ([''A'', ''B'', ''C''],
       [Bare 0, Wrapped [300], Wrapped [1500]], [0, 5, 20]))))
     = zip [''A'', ''B'', ''C''] [Bare 0, Wrapped [300], Wrapped [1500]]"
    by blast
  moreover have "getSessions 15 (''c'', ([''A'', ''B'', ''C''],
       [Bare 0, Wrapped [300], Wrapped [1500]], [0, 5, 20]))
     = [(''c'', ([0, 5], [''A'', ''B''], [Bare 0, Wrapped [300]])),
        (''c'', ([0], [''C''], [Wrapped [1500]]))]"
    by (simp add: getSessions_def Let_def)
  ultimately show ?thesis
    by simp
qed

lemma sess_loop_length:
  "length (sess_loop w cid evs ls cur)
     = length ls + 1 + length (filter (\<lambda>e. \<not> snd (snd e) < of_int w) evs)"
  by (induction w cid evs ls cur rule: sess_loop.induct) auto

lemma sess_loop_gaps:
  "s \<in> set (sess_loop w cid evs ls cur) \<Longrightarrow>
   fst cur \<noteq> [] \<Longrightarrow> hd (fst cur) = 0 \<Longrightarrow> \<forall>g \<in> set (tl (fst cur)). g < of_int w \<Longrightarrow>
   s \<in> set ls \<or>
   (sess_durs s \<noteq> [] \<and> hd (sess_durs s) = 0 \<and> (\<forall>g \<in> set (tl (sess_durs s)). g < of_int w))"
  by (induction w cid evs ls cur rule: sess_loop.induct)
     (auto simp: sess_durs_def split: if_splits)

lemma sess_loop_all_boundaries:
  "\<forall>e \<in> set evs. \<not> snd (snd e) < of_int w \<Longrightarrow>
   sess_loop w cid evs ls cur
     = ls @ [(cid, cur)] @ map (\<lambda>e. (cid, ([0], [fst e], [fst (snd e)]))) evs"
proof (induction w cid evs ls cur rule: sess_loop.induct)
  case (1 w cid lsessions cur)
  then show ?case by simp
next
  case (2 w cid url ts dur rest lsessions lsess_durs lsess_urls lsess_ts)
  then show ?case
    by simp
qed

lemma getSessions_first_step:
  assumes "length urls = length durs" and "length tss = length durs"
    and "durs \<noteq> []"
  obtains url ts rest where
    "zip urls (zip tss durs) = (url, ts, hd durs) # rest" and "Suc (length rest) = length durs"
proof -
  from assms obtain d ds where d: "durs = d # ds"
    by (cases durs) auto
  with assms obtain u us where u: "urls = u # us"
    by (cases urls) auto
  from d assms obtain t tq where t: "tss = t # tq"
    by (cases tss) auto
  have "zip urls (zip tss durs) = (u, t, hd durs) # zip us (zip tq ds)"
    by (simp add: d u t)
  moreover have "Suc (length (zip us (zip tq ds))) = length durs"
    using assms by (simp add: d u t)
  ultimately show ?thesis
    by (rule that)
qed

text \<open>
  For every window and every timeline whose gap list starts with 0, the gap list of each
  session of \<^verbatim>\<open>getSessions\<close> has 0 at position 0 and a gap below the window at every
  later position. For a positive window every session has a first gap; for a window
  \<open>w \<le> 0\<close> the session that the loop flushes at the first event has none.
\<close>

lemma getSessions_gaps:
  assumes "length urls = length durs" and "length tss = length durs"
    and "durs \<noteq> []" and "hd durs = 0"
  shows "\<forall>s \<in> set (getSessions w (cid, (urls, tss, durs))).
           (\<forall>i < length (sess_durs s).
              (i = 0 \<longrightarrow> sess_durs s ! i = 0) \<and>
              (0 < i \<longrightarrow> sess_durs s ! i < of_int w)) \<and>
           (0 < w \<longrightarrow> sess_durs s \<noteq> [])"
proof
  fix s
  assume s: "s \<in> set (getSessions w (cid, (urls, tss, durs)))"
  from getSessions_first_step [OF assms(1-3)] obtain url ts rest where
    z: "zip urls (zip tss durs) = (url, ts, 0) # rest"
    unfolding assms(4) by blast
  have g: "getSessions w (cid, (urls, tss, durs))
             = sess_loop w cid ((url, ts, 0) # rest) [] ([], [], [])"
    by (simp add: getSessions_def z)
  have ok: "(sess_durs s = [] \<and> \<not> 0 < w) \<or>
        (sess_durs s \<noteq> [] \<and> hd (sess_durs s) = 0 \<and>
         (\<forall>g \<in> set (tl (sess_durs s)). g < of_int w))"
  proof (cases "0 < w")
    case True
    then have "getSessions w (cid, (urls, tss, durs))
                 = sess_loop w cid rest [] ([0], [url], [ts])"
      by (simp add: g)
    with s sess_loop_gaps [of s w cid rest "[]" "([0], [url], [ts])"]
    show ?thesis by simp
  next
    case False
    then have "getSessions w (cid, (urls, tss, durs))
                 = sess_loop w cid rest [(cid, ([], [], []))] ([0], [url], [ts])"
      by (simp add: g)
    with s sess_loop_gaps [of s w cid rest "[(cid, ([], [], []))]" "([0], [url], [ts])"] False
    show ?thesis by (auto simp: sess_durs_def)
  qed
  show "(\<forall>i < length (sess_durs s).
              (i = 0 \<longrightarrow> sess_durs s ! i = 0) \<and>
              (0 < i \<longrightarrow> sess_durs s ! i < of_int w)) \<and>
           (0 < w \<longrightarrow> sess_durs s \<noteq> [])"
  proof (cases "sess_durs s")
    case Nil
    with ok show ?thesis by simp
  next
    case (Cons g gs)
    with ok have h: "g = 0" "\<forall>x \<in> set gs. x < of_int w"
      by simp_all
    have "(g # gs) ! i < of_int w" if "0 < i" "i < length (g # gs)" for i
      using that h(2) by (cases i) auto
    with h(1) show ?thesis
      unfolding Cons by auto
  qed
qed

lemma getSessions_gaps_example:
  "length [''A'', ''B'', ''C''] = length [0, 5, 20 :: minutes] \<and>
   length [Bare 0, Wrapped [300], Wrapped [1500]] = length [0, 5, 20 :: minutes] \<and>
   [0, 5, 20 :: minutes] \<noteq> [] \<and> hd [0, 5, 20 :: minutes] = 0 \<and>
   (''c'', ([0, 5], [''A'', ''B''], [Bare 0, Wrapped [300]]))
     \<in> set (getSessions 15 (''c'', ([''A'', ''B'', ''C''],
                [Bare 0, Wrapped [300], Wrapped [1500]], [0, 5, 20]))) \<and>
   [0, 5 :: minutes] ! 0 = 0 \<and> [0, 5 :: minutes] ! 1 < of_int 15 \<and> [0, 5 :: minutes] \<noteq> []"
proof -
  let ?s = "(''c'', ([0, 5], [''A'', ''B''], [Bare 0, Wrapped [300]])) :: session"
  let ?tl = "(''c'', ([''A'', ''B'', ''C''], [Bare 0, Wrapped [300], Wrapped [1500]],
              [0, 5, 20])) :: timeline"
  have a: "length [''A'', ''B'', ''C''] = length [0, 5, 20 :: minutes]"
    "length [Bare 0, Wrapped [300], Wrapped [1500]] = length [0, 5, 20 :: minutes]"
    "[0, 5, 20 :: minutes] \<noteq> []" "hd [0, 5, 20 :: minutes] = 0"
    by simp_all
  have m: "?s \<in> set (getSessions 15 ?tl)"
    by (simp add: getSessions_def Let_def)
  from getSessions_gaps [OF a, of 15 "''c''"] m
  have p: "(\<forall>i < length (sess_durs ?s).
              (i = 0 \<longrightarrow> sess_durs ?s ! i = 0) \<and>
              (0 < i \<longrightarrow> sess_durs ?s ! i < of_int 15)) \<and>
           ((0::int) < 15 \<longrightarrow> sess_durs ?s \<noteq> [])"
    by blast
  have d: "sess_durs ?s = [0, 5]"
    by (simp add: sess_durs_def)
  from p have "[0, 5 :: minutes] ! 0 = 0" and "[0, 5 :: minutes] ! 1 < of_int 15"
    and "[0, 5 :: minutes] \<noteq> []"
    unfolding d by simp_all
  with a m show ?thesis
    by blast
qed

lemma getSessions_positive_window:
  assumes "length urls = length durs" and "length tss = length durs"
    and "durs \<noteq> []" and "hd durs = 0" and "0 < w"
  shows "1 \<le> length (getSessions w (cid, (urls, tss, durs))) \<and>
         length (getSessions w (cid, (urls, tss, durs))) \<le> length durs \<and>
         (\<forall>s \<in> set (getSessions w (cid, (urls, tss, durs))).
            sess_durs s \<noteq> [] \<and> sess_urls s \<noteq> [] \<and> sess_ts s \<noteq> [])"
proof -
  from getSessions_first_step [OF assms(1-3)] obtain url ts rest where
    z: "zip urls (zip tss durs) = (url, ts, 0) # rest" and n: "Suc (length rest) = length durs"
    unfolding assms(4) by blast
  have g: "getSessions w (cid, (urls, tss, durs)) = sess_loop w cid rest [] ([0], [url], [ts])"
    using assms(5) by (simp add: getSessions_def z)
  have f: "length (filter (\<lambda>e. \<not> snd (snd e) < of_int w) rest) \<le> length rest"
    by (rule length_filter_le)
  have "length (getSessions w (cid, (urls, tss, durs)))
          = 1 + length (filter (\<lambda>e. \<not> snd (snd e) < of_int w) rest)"
    unfolding g sess_loop_length by simp
  with f n have c: "1 \<le> length (getSessions w (cid, (urls, tss, durs))) \<and>
         length (getSessions w (cid, (urls, tss, durs))) \<le> length durs"
    by linarith
  have "sess_durs s \<noteq> [] \<and> sess_urls s \<noteq> [] \<and> sess_ts s \<noteq> []"
    if s: "s \<in> set (getSessions w (cid, (urls, tss, durs)))" for s
  proof -
    from s sess_loop_gaps [of s w cid rest "[]" "([0], [url], [ts])"]
    have "sess_durs s \<noteq> []"
      unfolding g by simp
    moreover from s sess_loop_shape [of s w cid rest "[]" "([0], [url], [ts])"]
    have "length (sess_durs s) = length (sess_urls s) \<and>
          length (sess_urls s) = length (sess_ts s)"
      unfolding g by simp
    ultimately show ?thesis
      by auto
  qed
  with c show ?thesis
    by blast
qed

text \<open>
  C3. For a window \<open>w \<le> 0\<close> and a timeline with no negative gap, \<^verbatim>\<open>getSessions\<close>
  raises nothing and returns first a session with no event at all (the three empty lists
  the loop starts with, flushed at the first event) and then one single-event session per
  event, with gap 0. The sessions per event are as the edge case asks; the session
  without events before them is not one of them.
\<close>

theorem getSessions_nonpositive_window:
  assumes "length urls = length durs" and "length tss = length durs"
    and "\<forall>g \<in> set durs. 0 \<le> g" and "w \<le> 0"
  shows "getSessions w (cid, (urls, tss, durs))
           = (cid, ([], [], [])) # map (\<lambda>e. (cid, ([0], [fst e], [snd e]))) (zip urls tss)"
proof -
  let ?evs = "zip urls (zip tss durs)"
  have "\<not> snd (snd e) < of_int w" if "e \<in> set ?evs" for e
  proof -
    from that have "snd (snd e) \<in> set durs"
      by (metis in_set_zipE prod.collapse)
    with assms(3) have "0 \<le> snd (snd e)" by blast
    moreover have "(of_int w :: rat) \<le> 0" using assms(4) by simp
    ultimately show ?thesis by simp
  qed
  then have "sess_loop w cid ?evs [] ([], [], [])
      = [] @ [(cid, ([], [], []))] @ map (\<lambda>e. (cid, ([0], [fst e], [fst (snd e)]))) ?evs"
    by (intro sess_loop_all_boundaries) blast
  moreover have "map (\<lambda>e. (cid, ([0 :: minutes], [fst e], [fst (snd e)]))) ?evs
      = map (\<lambda>e. (cid, ([0], [fst e], [snd e]))) (map (\<lambda>e. (fst e, fst (snd e))) ?evs)"
    by (simp add: comp_def)
  ultimately show ?thesis
    unfolding zip3_events [OF assms(1,2)] by (simp add: getSessions_def)
qed

theorem getSessions_nonpositive_window_witness:
  "length [''A'', ''B''] = length [0, 5 :: minutes] \<and>
   length [Bare 0, Wrapped [300]] = length [0, 5 :: minutes] \<and>
   0 \<le> (0 :: minutes) \<and> 0 \<le> (5 :: minutes) \<and> (- 1 :: int) \<le> 0 \<and>
   getSessions (- 1) (''c'', ([''A'', ''B''], [Bare 0, Wrapped [300]], [0, 5]))
     = [(''c'', ([], [], [])),
        (''c'', ([0], [''A''], [Bare 0])),
        (''c'', ([0], [''B''], [Wrapped [300]]))]"
proof -
  have a: "length [''A'', ''B''] = length [0, 5 :: minutes]"
    "length [Bare 0, Wrapped [300]] = length [0, 5 :: minutes]"
    "\<forall>g \<in> set [0, 5 :: minutes]. 0 \<le> g" "(- 1 :: int) \<le> 0"
    by simp_all
  from getSessions_nonpositive_window [OF a, of "''c''"] a show ?thesis
    by simp
qed

text \<open>
  C2. The timeline that \<^verbatim>\<open>getPageDurations\<close> builds from one event, sessionized with
  window 0: two sessions for one event, and the first of them holds no event (its
  duration, url and timestamp lists are empty).
\<close>

theorem getSessions_window_zero_single_event:
  "getPageDurations rnd (cid, [(t, u)]) = Inr (cid, ([u], [Bare t], [0])) \<and>
   getSessions 0 (cid, ([u], [Bare t], [0]))
     = [(cid, ([], [], [])), (cid, ([0], [u], [Bare t]))] \<and>
   length (getSessions 0 (cid, ([u], [Bare t], [0]))) = 2 \<and>
   sess_durs (hd (getSessions 0 (cid, ([u], [Bare t], [0])))) = [] \<and>
   sess_urls (hd (getSessions 0 (cid, ([u], [Bare t], [0])))) = [] \<and>
   sess_ts (hd (getSessions 0 (cid, ([u], [Bare t], [0])))) = []"
proof -
  have "getPageDurations rnd (cid, [(t, u)]) = Inr (cid, ([u], [Bare t], [0]))"
    using getPageDurations_Cons [of rnd cid "(t, u)" "[]"] by simp
  moreover have "getSessions 0 (cid, ([u], [Bare t], [0]))
     = [(cid, ([], [], [])), (cid, ([0], [u], [Bare t]))]"
    by (simp add: getSessions_def Let_def)
  ultimately show ?thesis
    by (simp add: sess_durs_def sess_urls_def sess_ts_def)
qed

text \<open>
  C4. The timeline of two events with the gaps 0 and 5, sessionized with window 0: of the
  three sessions the first has an empty gap list, so it has no first gap that could be 0;
  the other two record the first gap 0.
\<close>

theorem getSessions_window_zero_no_first_gap:
  "getSessions 0 (cid, ([u1, u2], [Bare t1, Wrapped [t2]], [0, 5]))
     = [(cid, ([], [], [])),
        (cid, ([0], [u1], [Bare t1])),
        (cid, ([0], [u2], [Wrapped [t2]]))] \<and>
   (\<exists>s. s \<in> set (getSessions 0 (cid, ([u1, u2], [Bare t1, Wrapped [t2]], [0, 5]))) \<and>
        sess_durs s = [])"
proof -
  have g: "getSessions 0 (cid, ([u1, u2], [Bare t1, Wrapped [t2]], [0, 5]))
     = [(cid, ([], [], [])),
        (cid, ([0], [u1], [Bare t1])),
        (cid, ([0], [u2], [Wrapped [t2]]))]"
    by (simp add: getSessions_def Let_def)
  have "(cid, ([], [], []))
          \<in> set (getSessions 0 (cid, ([u1, u2], [Bare t1, Wrapped [t2]], [0, 5]))) \<and>
        sess_durs (cid, ([], [], [])) = []"
    unfolding g by (simp add: sess_durs_def)
  then have "\<exists>s. s \<in> set (getSessions 0 (cid, ([u1, u2], [Bare t1, Wrapped [t2]], [0, 5])))
                \<and> sess_durs s = []"
    by (rule exI)
  with g show ?thesis
    by (rule conjI)
qed

text \<open>
  C10. For a client with at least two events, the timestamp list that
  \<^verbatim>\<open>getPageDurations\<close> builds starts with the first timestamp itself, and each later
  element is a one-element list around a timestamp. \<^verbatim>\<open>getSessions\<close> hands these
  elements on as they are: the timestamp lists of its sessions, in order, make up that list,
  for every window.
\<close>

theorem getPageDurations_mixed_shape:
  "\<exists>lurls ldurs.
     getPageDurations rnd (cid, d0 # d1 # rest)
       = Inr (cid, (lurls, Bare (fst d0) # map (\<lambda>j. Wrapped [fst j]) (d1 # rest), ldurs)) \<and>
     concat (map sess_ts (getSessions w
         (cid, (lurls, Bare (fst d0) # map (\<lambda>j. Wrapped [fst j]) (d1 # rest), ldurs))))
       = Bare (fst d0) # map (\<lambda>j. Wrapped [fst j]) (d1 # rest)"
proof -
  let ?dat = "d0 # d1 # rest"
  let ?lurls = "map snd ?dat"
  let ?lts = "Bare (fst d0) # map (\<lambda>j. Wrapped [fst j]) (d1 # rest)"
  let ?ldurs = "0 # map (\<lambda>ij. rnd (rnd (fst (snd ij) - fst (fst ij)) / 60)) (zip ?dat (d1 # rest))"
  have r: "getPageDurations rnd (cid, ?dat) = Inr (cid, (?lurls, ?lts, ?ldurs))"
    by (rule getPageDurations_Cons)
  have l: "length ?lurls = length ?ldurs" "length ?lts = length ?ldurs"
    by simp_all
  have "concat (map sess_ts (sess_loop w cid (zip ?lurls (zip ?lts ?ldurs)) [] ([], [], [])))
          = ?lts"
    unfolding sess_loop_ts zip3_snd [OF l] by simp
  then have "concat (map sess_ts (getSessions w (cid, (?lurls, ?lts, ?ldurs)))) = ?lts"
    by (simp add: getSessions_def)
  with r show ?thesis
    by blast
qed

theorem getPageDurations_mixed_shape_witness:
  "\<exists>lurls ldurs.
     getPageDurations id (''c'', [(0, ''A''), (300, ''B''), (1500, ''C'')])
       = Inr (''c'', (lurls, [Bare 0, Wrapped [300], Wrapped [1500]], ldurs)) \<and>
     concat (map sess_ts (getSessions 15
         (''c'', (lurls, [Bare 0, Wrapped [300], Wrapped [1500]], ldurs))))
       = [Bare 0, Wrapped [300], Wrapped [1500]]"
  using getPageDurations_mixed_shape
          [of id "''c''" "(0, ''A'')" "(300, ''B'')" "[(1500, ''C'')]" 15]
  by simp

section \<open>The Optimal Window Selector\<close>

lemma cohort_loop_take:
  "num_ind < num_cohorts \<Longrightarrow>
   cohort_loop p ks num_ind lind
     = lind @ take (num_cohorts - num_ind) (filter (\<lambda>k. p ! k < p ! (k + 1)) ks)"
proof (induction ks arbitrary: num_ind lind)
  case Nil
  then show ?case by simp
next
  case (Cons k ks)
  show ?case
  proof (cases "p ! k < p ! (k + 1)")
    case False
    with Cons show ?thesis by simp
  next
    case up: True
    show ?thesis
    proof (cases "num_ind + 1 \<ge> num_cohorts")
      case True
      with Cons.prems have "num_cohorts - num_ind = 1" by simp
      with up True show ?thesis by simp
    next
      case False
      then have lt: "num_ind + 1 < num_cohorts" by simp
      have "num_cohorts - num_ind = Suc (num_cohorts - (num_ind + 1))"
        using lt by simp
      with up False Cons.IH [OF lt, of "lind @ [k]"] show ?thesis
        by simp
    qed
  qed
qed

text \<open>
  C6. \<^verbatim>\<open>getOptimalSessionWindow\<close> reads the series \<open>p\<close> stored under key 0 and
  returns the first two indices \<open>k\<close>, in increasing order, with \<open>p[k] < p[k + 1]\<close>: all
  of them when there are fewer than two, and the empty list exactly when the series has no
  such index. On the series \<open>[60, 55, 50, 52, 48]\<close> it returns \<open>[2]\<close>.
\<close>

theorem getOptimalSessionWindow_scan:
  assumes "lpg_sess_stats 0 = Some p"
  shows "getOptimalSessionWindow lpg_sess_stats
           = Inr (take 2 (filter (\<lambda>k. p ! k < p ! (k + 1)) [0..<length p - 1])) \<and>
         sorted_wrt (<) (take 2 (filter (\<lambda>k. p ! k < p ! (k + 1)) [0..<length p - 1])) \<and>
         (take 2 (filter (\<lambda>k. p ! k < p ! (k + 1)) [0..<length p - 1]) = []
            \<longleftrightarrow> (\<forall>k. k + 1 < length p \<longrightarrow> \<not> p ! k < p ! (k + 1))) \<and>
         getOptimalSessionWindow [0 \<mapsto> [60, 55, 50, 52, 48 :: rat]] = Inr [2]"
proof -
  let ?ups = "filter (\<lambda>k. p ! k < p ! (k + 1)) [0..<length p - 1]"
  have "cohort_loop p [0..<length p - 1] 0 [] = [] @ take (num_cohorts - 0) ?ups"
    by (rule cohort_loop_take) (simp add: num_cohorts_def)
  then have a: "getOptimalSessionWindow lpg_sess_stats = Inr (take 2 ?ups)"
    using assms by (simp add: getOptimalSessionWindow_def num_cohorts_def)
  have "sorted_wrt (<) ?ups"
    by (rule sorted_wrt_filter) simp
  then have b: "sorted_wrt (<) (take 2 ?ups)"
    by (rule sorted_wrt_take)
  have "take 2 ?ups = [] \<longleftrightarrow> ?ups = []"
    by simp
  also have "\<dots> \<longleftrightarrow> (\<forall>k \<in> set [0..<length p - 1]. \<not> p ! k < p ! (k + 1))"
    by (simp only: filter_empty_conv)
  also have "\<dots> \<longleftrightarrow> (\<forall>k. k + 1 < length p \<longrightarrow> \<not> p ! k < p ! (k + 1))"
    by auto
  finally have c: "take 2 ?ups = [] \<longleftrightarrow> (\<forall>k. k + 1 < length p \<longrightarrow> \<not> p ! k < p ! (k + 1))" .
  have d: "getOptimalSessionWindow [0 \<mapsto> [60, 55, 50, 52, 48 :: rat]] = Inr [2]"
    by (simp add: getOptimalSessionWindow_def num_cohorts_def upt_rec)
  from a b c d show ?thesis
    by blast
qed

theorem getOptimalSessionWindow_scan_witness:
  "[0 \<mapsto> [50, 40, 45, 30, 35, 20, 25 :: rat]] 0 = Some [50, 40, 45, 30, 35, 20, 25] \<and>
   getOptimalSessionWindow [0 \<mapsto> [50, 40, 45, 30, 35, 20, 25 :: rat]] = Inr [1, 3]"
proof -
  have h: "[0 \<mapsto> [50, 40, 45, 30, 35, 20, 25 :: rat]] 0 = Some [50, 40, 45, 30, 35, 20, 25]"
    by simp
  have "take 2 (filter (\<lambda>k. [50, 40, 45, 30, 35, 20, 25 :: rat] ! k
                                 < [50, 40, 45, 30, 35, 20, 25] ! (k + 1))
                  [0..<length [50, 40, 45, 30, 35, 20, 25 :: rat] - 1]) = [1, 3]"
    by (simp add: upt_rec)
  with getOptimalSessionWindow_scan
         [of "[0 \<mapsto> [50, 40, 45, 30, 35, 20, 25 :: rat]]" "[50, 40, 45, 30, 35, 20, 25]", OF h]
       h show ?thesis
    by simp
qed

section \<open>The Window Sweep Analyzer\<close>

lemma hits_loop_positive:
  "lsess_urls \<noteq> [] \<Longrightarrow> \<forall>h \<in> set lsession_hits. 1 \<le> h \<Longrightarrow>
   \<forall>h \<in> set (hits_loop period evs lsess_urls lsession_hits). 1 \<le> h"
proof (induction period evs lsess_urls lsession_hits rule: hits_loop.induct)
  case (1 period lsess_urls lsession_hits)
  then have "remdups lsess_urls \<noteq> []" by simp
  then have "1 \<le> length (remdups lsess_urls)"
    by (cases "remdups lsess_urls") auto
  with 1 show ?case by simp
next
  case (2 period url dur rest lsess_urls lsession_hits)
  from 2(3) have "remdups lsess_urls \<noteq> []" by simp
  then have "1 \<le> length (remdups lsess_urls)"
    by (cases "remdups lsess_urls") auto
  with 2 show ?case by simp
qed

lemma hits_loop_length:
  "length (hits_loop period evs lsess_urls lsession_hits)
     = length lsession_hits + 1 + length (filter (\<lambda>e. \<not> snd e < of_int period) evs)"
  by (induction period evs lsess_urls lsession_hits rule: hits_loop.induct) auto

lemma length7E:
  assumes "length (h :: 'a list) = 7"
  obtains a b c d e f g where "h = [a, b, c, d, e, f, g]"
proof -
  from assms obtain a h1 where 1: "h = a # h1" "length h1 = 6" by (cases h) auto
  then obtain b h2 where 2: "h1 = b # h2" "length h2 = 5" by (cases h1) auto
  then obtain c h3 where 3: "h2 = c # h3" "length h3 = 4" by (cases h2) auto
  then obtain d h4 where 4: "h3 = d # h4" "length h4 = 3" by (cases h3) auto
  then obtain e h5 where 5: "h4 = e # h5" "length h5 = 2" by (cases h4) auto
  then obtain f h6 where 6: "h5 = f # h6" "length h6 = 1" by (cases h5) auto
  then obtain g where 7: "h6 = [g]" by (cases h6) auto
  show ?thesis using 1 2 3 4 5 6 7 by (intro that [of a b c d e f g]) simp
qed

lemma incr_at_bucket:
  assumes "length h = 7" and "0 \<le> i" and "i \<le> 5"
  shows "length (incr_at h i) = 7 \<and> incr_at h i ! 6 = h ! 6 \<and>
         sum_list (take 6 (incr_at h i)) = sum_list (take 6 h) + 1"
proof -
  from assms(1) obtain a b c d e f g where h: "h = [a, b, c, d, e, f, g]"
    by (rule length7E)
  from assms(2,3) have "i = 0 \<or> i = 1 \<or> i = 2 \<or> i = 3 \<or> i = 4 \<or> i = 5"
    by arith
  then show ?thesis
    by (elim disjE) (simp_all add: h incr_at_def)
qed

lemma tally_loop_sum:
  "length h = 7 \<Longrightarrow> \<forall>x \<in> set hits. 1 \<le> x \<Longrightarrow>
   length (tally_loop hits h) = 7 \<and> tally_loop hits h ! 6 = h ! 6 \<and>
   sum_list (take 6 (tally_loop hits h)) = sum_list (take 6 h) + int (length hits)"
proof (induction hits arbitrary: h)
  case Nil
  then show ?case by simp
next
  case (Cons x hits)
  let ?h' = "if x \<le> 5 then incr_at h (int x - 1) else incr_at h 5"
  from Cons.prems have x: "1 \<le> x" by simp
  have b: "length ?h' = 7 \<and> ?h' ! 6 = h ! 6 \<and>
           sum_list (take 6 ?h') = sum_list (take 6 h) + 1"
  proof (cases "x \<le> 5")
    case True
    with x incr_at_bucket [OF Cons.prems(1), of "int x - 1"] show ?thesis by simp
  next
    case False
    with incr_at_bucket [OF Cons.prems(1), of 5] show ?thesis by simp
  qed
  from Cons.prems have "\<forall>x \<in> set hits. 1 \<le> x" by simp
  with b Cons.IH [of ?h'] have
    "length (tally_loop hits ?h') = 7 \<and> tally_loop hits ?h' ! 6 = ?h' ! 6 \<and>
     sum_list (take 6 (tally_loop hits ?h')) = sum_list (take 6 ?h') + int (length hits)"
    by blast
  moreover have "tally_loop (x # hits) h = tally_loop hits ?h'"
    by simp
  ultimately show ?case
    using b by simp
qed

lemma page_hits_sum:
  assumes "\<forall>x \<in> set hits. 1 \<le> x"
  shows "length (page_hits hits) = 7 \<and> page_hits hits ! 6 = int (length hits) \<and>
         sum_list (take 6 (page_hits hits)) = int (length hits)"
proof -
  let ?h = "(replicate 7 (0::int))[6 := replicate 7 (0::int) ! 6 + int (length hits)]"
  have h: "?h = [0, 0, 0, 0, 0, 0, int (length hits)]"
    by (simp add: numeral_eq_Suc)
  have "length ?h = 7" by simp
  from tally_loop_sum [OF this assms] show ?thesis
    unfolding page_hits_def Let_def h by simp
qed

lemma tally_loop_buckets:
  "\<forall>x \<in> set hits. 1 \<le> x \<Longrightarrow>
   tally_loop hits [a, b, c, d, e, f, g] =
     [a + int (length (filter (\<lambda>x. x = 1) hits)),
      b + int (length (filter (\<lambda>x. x = 2) hits)),
      c + int (length (filter (\<lambda>x. x = 3) hits)),
      d + int (length (filter (\<lambda>x. x = 4) hits)),
      e + int (length (filter (\<lambda>x. x = 5) hits)),
      f + int (length (filter (\<lambda>x. 6 \<le> x) hits)),
      g]"
proof (induction hits arbitrary: a b c d e f g)
  case Nil
  then show ?case by simp
next
  case (Cons x hits)
  then have x: "1 \<le> x" and rest: "\<forall>x \<in> set hits. 1 \<le> x"
    by simp_all
  from x consider "x = 1" | "x = 2" | "x = 3" | "x = 4" | "x = 5" | "6 \<le> x"
    by arith
  then show ?case
  proof cases
    case 1
    then show ?thesis by (simp add: incr_at_def Cons.IH [OF rest])
  next
    case 2
    then show ?thesis by (simp add: incr_at_def Cons.IH [OF rest])
  next
    case 3
    then show ?thesis by (simp add: incr_at_def Cons.IH [OF rest])
  next
    case 4
    then show ?thesis by (simp add: incr_at_def Cons.IH [OF rest])
  next
    case 5
    then show ?thesis by (simp add: incr_at_def Cons.IH [OF rest])
  next
    case 6
    then show ?thesis by (simp add: incr_at_def Cons.IH [OF rest])
  qed
qed


lemma page_hits_buckets:
  assumes "\<forall>x \<in> set hits. 1 \<le> x"
  shows "page_hits hits =
     [int (length (filter (\<lambda>x. x = 1) hits)),
      int (length (filter (\<lambda>x. x = 2) hits)),
      int (length (filter (\<lambda>x. x = 3) hits)),
      int (length (filter (\<lambda>x. x = 4) hits)),
      int (length (filter (\<lambda>x. x = 5) hits)),
      int (length (filter (\<lambda>x. 6 \<le> x) hits)),
      int (length hits)]"
proof -
  have h: "(replicate 7 (0::int))[6 := replicate 7 (0::int) ! 6 + int (length hits)]
             = [0, 0, 0, 0, 0, 0, int (length hits)]"
    by (simp add: numeral_eq_Suc)
  show ?thesis
    unfolding page_hits_def Let_def h tally_loop_buckets [OF assms] by simp
qed


lemma hits_loop_sess_loop:
  "hits_loop period (map (\<lambda>e. (fst e, snd (snd e))) evs) lu (map session_hits ls)
     = map session_hits (sess_loop period cid evs ls (ld, lu, lt))"
  by (induction evs arbitrary: ls ld lu lt) (auto simp: session_hits_def sess_urls_def)


lemma zip3_url_dur:
  assumes "length urls = length durs" and "length tss = length durs"
  shows "map (\<lambda>e. (fst e, snd (snd e))) (zip urls (zip tss durs)) = zip urls durs"
proof -
  let ?z = "zip urls (zip tss durs)"
  have "map (\<lambda>e. snd (snd e)) ?z = map snd (map snd ?z)"
    by simp
  also have "\<dots> = durs"
    using assms by simp
  finally have d: "map (\<lambda>e. snd (snd e)) ?z = durs" .
  have "map (\<lambda>e. (fst e, snd (snd e))) ?z = zip (map fst ?z) (map (\<lambda>e. snd (snd e)) ?z)"
    by (rule map_pair_zip)
  then show ?thesis
    unfolding zip3_fst [OF assms] d .
qed


lemma hits_loop_getSessions:
  assumes "length urls = length durs" and "length tss = length durs"
  shows "hits_loop period (zip urls durs) [] []
           = map session_hits (getSessions period (cid, (urls, tss, durs)))"
  using hits_loop_sess_loop [of period "zip urls (zip tss durs)" "[]" "[]" cid "[]" "[]"]
  by (simp add: zip3_url_dur [OF assms] getSessions_def)


lemma hist_add_row:
  assumes "length (x :: int list) = 7" "sum_list (take 6 x) = x ! 6"
    and "length (y :: int list) = 7" "sum_list (take 6 y) = y ! 6"
  shows "length (map (\<lambda>(p, q). p + q) (zip x y)) = 7 \<and>
         sum_list (take 6 (map (\<lambda>(p, q). p + q) (zip x y)))
           = map (\<lambda>(p, q). p + q) (zip x y) ! 6"
proof -
  from assms(1) obtain a b c d e f g where x: "x = [a, b, c, d, e, f, g]"
    by (rule length7E)
  from assms(3) obtain a' b' c' d' e' f' g' where y: "y = [a', b', c', d', e', f', g']"
    by (rule length7E)
  from assms(2,4) show ?thesis
    by (simp add: x y)
qed


lemma hist_add_rows:
  assumes "\<forall>t \<in> set a. length t = 7 \<and> sum_list (take 6 t) = t ! 6"
    and "\<forall>t \<in> set b. length t = 7 \<and> sum_list (take 6 t) = t ! 6"
  shows "\<forall>t \<in> set (hist_add a b). length t = 7 \<and> sum_list (take 6 t) = t ! 6"
proof
  fix t
  assume "t \<in> set (hist_add a b)"
  then obtain x y where xy: "(x, y) \<in> set (zip a b)" and t: "t = map (\<lambda>(p, q). p + q) (zip x y)"
    by (auto simp: hist_add_def)
  from xy have "x \<in> set a" and "y \<in> set b"
    by (auto dest: set_zip_leftD set_zip_rightD)
  with assms have "length x = 7" "sum_list (take 6 x) = x ! 6"
    "length y = 7" "sum_list (take 6 y) = y ! 6"
    by blast+
  from hist_add_row [OF this] show "length t = 7 \<and> sum_list (take 6 t) = t ! 6"
    unfolding t .
qed


lemma foldl_hist_add_rows:
  "\<forall>t \<in> set h. length t = 7 \<and> sum_list (take 6 t) = t ! 6 \<Longrightarrow>
   \<forall>c \<in> set cs. \<forall>t \<in> set c. length t = 7 \<and> sum_list (take 6 t) = t ! 6 \<Longrightarrow>
   \<forall>t \<in> set (foldl hist_add h cs). length t = 7 \<and> sum_list (take 6 t) = t ! 6"
proof (induction cs arbitrary: h)
  case Nil
  then show ?case by simp
next
  case (Cons c cs)
  have c: "\<forall>t \<in> set c. length t = 7 \<and> sum_list (take 6 t) = t ! 6"
    using Cons.prems(2) by (simp only: list.set ball_simps insert_iff) blast
  have cs: "\<forall>c \<in> set cs. \<forall>t \<in> set c. length t = 7 \<and> sum_list (take 6 t) = t ! 6"
    using Cons.prems(2) by (simp only: list.set insert_iff) blast
  have "\<forall>t \<in> set (hist_add h c). length t = 7 \<and> sum_list (take 6 t) = t ! 6"
    by (rule hist_add_rows [OF Cons.prems(1) c])
  from Cons.IH [OF this cs] show ?case
    unfolding foldl_Cons .
qed

lemma getPageDurations_timeline:
  assumes "getPageDurations rnd x = Inr lin"
  obtains cid urls tss durs where "lin = (cid, (urls, tss, durs))"
    and "length urls = length durs" and "length tss = length durs"
    and "durs \<noteq> []" and "hd durs = 0"
proof -
  obtain cid dat where x: "x = (cid, dat)"
    by (cases x)
  show ?thesis
  proof (cases dat)
    case Nil
    with assms x show ?thesis
      by (simp add: getPageDurations_def)
  next
    case (Cons d0 rest)
    let ?urls = "map snd (d0 # rest)"
    let ?tss = "Bare (fst d0) # map (\<lambda>j. Wrapped [fst j]) rest"
    let ?durs = "0 # map (\<lambda>ij. rnd (rnd (fst (snd ij) - fst (fst ij)) / 60)) (zip (d0 # rest) rest)"
    from assms have "lin = (cid, (?urls, ?tss, ?durs))"
      unfolding x Cons getPageDurations_Cons by simp
    moreover have "length ?urls = length ?durs" "length ?tss = length ?durs"
      "?durs \<noteq> []" "hd ?durs = 0"
      by simp_all
    ultimately show ?thesis
      by (rule that)
  qed
qed

lemma upto_nth_period:
  assumes "1 \<le> period" and "period < window_max"
  shows "nat (period - 1) < length [1..window_max - 1]"
    and "[1..window_max - 1] ! nat (period - 1) = period"
proof -
  show "nat (period - 1) < length [1..window_max - 1]"
    using assms by simp
  have "1 + int (nat (period - 1)) \<le> window_max - 1"
    using assms by simp
  from nth_upto [OF this] show "[1..window_max - 1] ! nat (period - 1) = period"
    using assms by simp
qed

lemma getSessionsURLHits_nth:
  assumes "1 \<le> period" and "period < window_max"
  shows "snd (getSessionsURLHits window_max (cid, (urls, tss, durs))) ! nat (period - 1)
           = page_hits (hits_loop period (zip urls durs) [] [])"
  using upto_nth_period [OF assms] by (simp add: getSessionsURLHits_def)

lemma sweep_tally:
  assumes "length urls = length durs" and "length tss = length durs"
    and "durs \<noteq> []" and "hd durs = 0" and "1 \<le> period"
  shows "page_hits (hits_loop period (zip urls durs) [] []) =
     [int (length (filter (\<lambda>s. session_hits s = 1) (getSessions period (cid, (urls, tss, durs))))),
      int (length (filter (\<lambda>s. session_hits s = 2) (getSessions period (cid, (urls, tss, durs))))),
      int (length (filter (\<lambda>s. session_hits s = 3) (getSessions period (cid, (urls, tss, durs))))),
      int (length (filter (\<lambda>s. session_hits s = 4) (getSessions period (cid, (urls, tss, durs))))),
      int (length (filter (\<lambda>s. session_hits s = 5) (getSessions period (cid, (urls, tss, durs))))),
      int (length (filter (\<lambda>s. 6 \<le> session_hits s) (getSessions period (cid, (urls, tss, durs))))),
      int (length (getSessions period (cid, (urls, tss, durs))))]"
    and "sum_list (take 6 (page_hits (hits_loop period (zip urls durs) [] [])))
           = page_hits (hits_loop period (zip urls durs) [] []) ! 6"
    and "length (page_hits (hits_loop period (zip urls durs) [] [])) = 7"
proof -
  let ?ss = "getSessions period (cid, (urls, tss, durs))"
  let ?hits = "map session_hits ?ss"
  have h: "hits_loop period (zip urls durs) [] [] = ?hits"
    by (rule hits_loop_getSessions [OF assms(1,2)])
  from assms(5) have "0 < period" by simp
  from getSessions_positive_window [OF assms(1-4) this, of cid]
  have ne: "\<forall>s \<in> set ?ss. sess_urls s \<noteq> []"
    by blast
  have pos: "\<forall>x \<in> set ?hits. 1 \<le> x"
  proof
    fix x assume "x \<in> set ?hits"
    then obtain s where s: "s \<in> set ?ss" and x: "x = session_hits s"
      by auto
    from ne s have "remdups (sess_urls s) \<noteq> []" by simp
    then show "1 \<le> x"
      unfolding x session_hits_def by (cases "remdups (sess_urls s)") auto
  qed
  have f: "length (filter P ?hits) = length (filter (\<lambda>s. P (session_hits s)) ?ss)" for P
    by (simp add: filter_map comp_def)
  show "page_hits (hits_loop period (zip urls durs) [] []) =
     [int (length (filter (\<lambda>s. session_hits s = 1) ?ss)),
      int (length (filter (\<lambda>s. session_hits s = 2) ?ss)),
      int (length (filter (\<lambda>s. session_hits s = 3) ?ss)),
      int (length (filter (\<lambda>s. session_hits s = 4) ?ss)),
      int (length (filter (\<lambda>s. session_hits s = 5) ?ss)),
      int (length (filter (\<lambda>s. 6 \<le> session_hits s) ?ss)),
      int (length ?ss)]"
    unfolding h page_hits_buckets [OF pos] f by simp
  from page_hits_sum [OF pos]
  show "sum_list (take 6 (page_hits (hits_loop period (zip urls durs) [] [])))
           = page_hits (hits_loop period (zip urls durs) [] []) ! 6"
    and "length (page_hits (hits_loop period (zip urls durs) [] [])) = 7"
    unfolding h by simp_all
qed

text \<open>
  C7. For every client whose timeline \<^verbatim>\<open>getPageDurations\<close> built and every candidate
  window \<open>period\<close> of the sweep, the tally of \<^verbatim>\<open>getSessionsURLHits\<close> has 7 entries:
  entry \<open>k < 5\<close> counts the sessions of \<^verbatim>\<open>getSessions\<close> at that window with exactly
  \<open>k + 1\<close> distinct resources, entry 5 those with 6 or more, entry 6 all sessions, and
  entries 0 to 5 add up to entry 6. The element-wise sum of the clients' tallies keeps 7
  entries per window and the same equality.
\<close>

theorem getSessionsURLHits_tally:
  assumes "\<forall>lin \<in> set d5. \<exists>x. getPageDurations rnd x = Inr lin"
  shows "(\<forall>lin \<in> set d5. \<forall>period. 1 \<le> period \<and> period < window_max \<longrightarrow>
            (let t = snd (getSessionsURLHits window_max lin) ! nat (period - 1);
                 ss = getSessions period lin
             in length t = 7 \<and>
                (\<forall>k < 5. t ! k = int (length (filter (\<lambda>s. session_hits s = k + 1) ss))) \<and>
                t ! 5 = int (length (filter (\<lambda>s. 6 \<le> session_hits s) ss)) \<and>
                t ! 6 = int (length ss) \<and>
                sum_list (take 6 t) = t ! 6)) \<and>
         (\<forall>lin \<in> set d5. \<forall>t \<in> set (snd (getSessionsURLHits window_max lin)).
            length t = 7 \<and> sum_list (take 6 t) = t ! 6) \<and>
         (\<forall>h. lsess_window_stats window_max d5 = Inr h \<longrightarrow>
            (\<forall>t \<in> set h. length t = 7 \<and> sum_list (take 6 t) = t ! 6))"
proof -
  have one: "let t = snd (getSessionsURLHits window_max lin) ! nat (period - 1);
                 ss = getSessions period lin
             in length t = 7 \<and>
                (\<forall>k < 5. t ! k = int (length (filter (\<lambda>s. session_hits s = k + 1) ss))) \<and>
                t ! 5 = int (length (filter (\<lambda>s. 6 \<le> session_hits s) ss)) \<and>
                t ! 6 = int (length ss) \<and>
                sum_list (take 6 t) = t ! 6"
    if lin: "lin \<in> set d5" and p: "1 \<le> period" "period < window_max" for lin period
  proof -
    from assms lin obtain x where "getPageDurations rnd x = Inr lin"
      by blast
    then obtain cid urls tss durs where l: "lin = (cid, (urls, tss, durs))"
      and a: "length urls = length durs" "length tss = length durs" "durs \<noteq> []" "hd durs = 0"
      by (rule getPageDurations_timeline)
    let ?t = "page_hits (hits_loop period (zip urls durs) [] [])"
    let ?ss = "getSessions period (cid, (urls, tss, durs))"
    have n: "snd (getSessionsURLHits window_max (cid, (urls, tss, durs))) ! nat (period - 1) = ?t"
      by (rule getSessionsURLHits_nth [OF p])
    note t = sweep_tally(1) [OF a p(1), of cid] sweep_tally(2,3) [OF a p(1)]
    have k: "?t ! k = int (length (filter (\<lambda>s. session_hits s = k + 1) ?ss))" if "k < 5" for k
    proof -
      from that have "k = 0 \<or> k = 1 \<or> k = 2 \<or> k = 3 \<or> k = 4"
        by arith
      then show ?thesis
        unfolding t(1) by (elim disjE) (simp_all add: numeral_eq_Suc)
    qed
    have "?t ! 5 = int (length (filter (\<lambda>s. 6 \<le> session_hits s) ?ss))"
      and "?t ! 6 = int (length ?ss)"
      unfolding t(1) by simp_all
    with k t(2,3) show ?thesis
      unfolding l Let_def n by blast
  qed
  have rows: "\<forall>t \<in> set (snd (getSessionsURLHits window_max lin)).
                length t = 7 \<and> sum_list (take 6 t) = t ! 6"
    if lin: "lin \<in> set d5" for lin
  proof
    fix t
    assume t: "t \<in> set (snd (getSessionsURLHits window_max lin))"
    from assms lin obtain x where "getPageDurations rnd x = Inr lin"
      by blast
    then obtain cid urls tss durs where l: "lin = (cid, (urls, tss, durs))"
      and a: "length urls = length durs" "length tss = length durs" "durs \<noteq> []" "hd durs = 0"
      by (rule getPageDurations_timeline)
    from t obtain period where p: "period \<in> set [1..window_max - 1]"
      and tp: "t = page_hits (hits_loop period (zip urls durs) [] [])"
      unfolding l by (auto simp: getSessionsURLHits_def)
    from p have "1 \<le> period" by simp
    from sweep_tally(2,3) [OF a this] show "length t = 7 \<and> sum_list (take 6 t) = t ! 6"
      unfolding tp by simp
  qed
  have glob: "\<forall>t \<in> set h. length t = 7 \<and> sum_list (take 6 t) = t ! 6"
    if h: "lsess_window_stats window_max d5 = Inr h" for h
  proof (cases d5)
    case Nil
    with h show ?thesis
      by (simp add: lsess_window_stats_def rdd_reduce_def)
  next
    case (Cons c cs)
    let ?f = "\<lambda>lin. snd (getSessionsURLHits window_max lin)"
    from h have hh: "h = foldl hist_add (?f c) (map ?f cs)"
      by (simp add: lsess_window_stats_def rdd_reduce_def Cons)
    have 1: "\<forall>t \<in> set (?f c). length t = 7 \<and> sum_list (take 6 t) = t ! 6"
      using rows [of c] by (simp add: Cons)
    have 2: "\<forall>r \<in> set (map ?f cs). \<forall>t \<in> set r. length t = 7 \<and> sum_list (take 6 t) = t ! 6"
    proof
      fix r assume "r \<in> set (map ?f cs)"
      then obtain lin where "lin \<in> set cs" and r: "r = ?f lin" by auto
      then have "lin \<in> set d5" by (simp add: Cons)
      from rows [OF this] show "\<forall>t \<in> set r. length t = 7 \<and> sum_list (take 6 t) = t ! 6"
        unfolding r .
    qed
    from foldl_hist_add_rows [OF 1 2] show ?thesis
      unfolding hh .
  qed
  from one rows glob show ?thesis
    by blast
qed

theorem getSessionsURLHits_tally_witness:
  "getPageDurations id (''a'', [(0, ''A''), (30, ''B''), (1500, ''C'')])
     = Inr (''a'', ([''A'', ''B'', ''C''], [Bare 0, Wrapped [30], Wrapped [1500]], [0, 1 / 2, 49 / 2])) \<and>
   getPageDurations id (''b'', [(0, ''X'')]) = Inr (''b'', ([''X''], [Bare 0], [0])) \<and>
   snd (getSessionsURLHits 3
      (''a'', ([''A'', ''B'', ''C''], [Bare 0, Wrapped [30], Wrapped [1500]], [0, 1 / 2, 49 / 2])))
     = [[1, 1, 0, 0, 0, 0, 2], [1, 1, 0, 0, 0, 0, 2]] \<and>
   lsess_window_stats 3
     [(''a'', ([''A'', ''B'', ''C''], [Bare 0, Wrapped [30], Wrapped [1500]], [0, 1 / 2, 49 / 2])),
      (''b'', ([''X''], [Bare 0], [0]))]
     = Inr [[2, 1, 0, 0, 0, 0, 3], [2, 1, 0, 0, 0, 0, 3]] \<and>
   length [2, 1, 0, 0, 0, 0, 3 :: int] = 7 \<and>
   sum_list (take 6 [2, 1, 0, 0, 0, 0, 3 :: int]) = [2, 1, 0, 0, 0, 0, 3] ! 6"
proof -
  let ?a = "(''a'', ([''A'', ''B'', ''C''], [Bare 0, Wrapped [30], Wrapped [1500]],
             [0, 1 / 2, 49 / 2])) :: timeline"
  let ?b = "(''b'', ([''X''], [Bare 0], [0])) :: timeline"
  have a: "getPageDurations id (''a'', [(0, ''A''), (30, ''B''), (1500, ''C'')]) = Inr ?a"
    unfolding getPageDurations_Cons by simp
  have b: "getPageDurations id (''b'', [(0, ''X'')]) = Inr ?b"
    unfolding getPageDurations_Cons by simp
  have hyp: "\<forall>lin \<in> set [?a, ?b]. \<exists>x. getPageDurations id x = Inr lin"
    using a b by (simp only: list.set ball_simps) blast
  have u: "[1..3 - 1] = [1, 2 :: int]"
    by code_simp
  have ua: "snd (getSessionsURLHits 3 ?a) = [[1, 1, 0, 0, 0, 0, 2], [1, 1, 0, 0, 0, 0, 2]]"
    unfolding getSessionsURLHits_def Let_def u
    by (simp add: page_hits_def incr_at_def Let_def numeral_eq_Suc)
  have ub: "snd (getSessionsURLHits 3 ?b) = [[1, 0, 0, 0, 0, 0, 1], [1, 0, 0, 0, 0, 0, 1]]"
    unfolding getSessionsURLHits_def Let_def u
    by (simp add: page_hits_def incr_at_def Let_def numeral_eq_Suc)
  have g: "lsess_window_stats 3 [?a, ?b]
             = Inr [[2, 1, 0, 0, 0, 0, 3], [2, 1, 0, 0, 0, 0, 3]]"
    unfolding lsess_window_stats_def rdd_reduce_def list.map ua ub
    by (simp add: hist_add_def)
  from getSessionsURLHits_tally [OF hyp, of 3] g
  have "\<forall>t \<in> set [[2, 1, 0, 0, 0, 0, 3], [2, 1, 0, 0, 0, 0, 3 :: int]].
          length t = 7 \<and> sum_list (take 6 t) = t ! 6"
    by blast
  then have "length [2, 1, 0, 0, 0, 0, 3 :: int] = 7 \<and>
     sum_list (take 6 [2, 1, 0, 0, 0, 0, 3 :: int]) = [2, 1, 0, 0, 0, 0, 3] ! 6"
    by simp
  with a b ua g show ?thesis
    by blast
qed

text \<open>
  C5. With \<^verbatim>\<open>SESSION_WINDOW_MAX = 40\<close>, \<^verbatim>\<open>getSessionsURLHits\<close> returns 39 tallies for
  every client, those of the windows 1 to 39 in this order: \<^verbatim>\<open>range(1, 40)\<close> stops
  before 40, so the window 40 itself is not evaluated.
\<close>

theorem getSessionsURLHits_windows:
  "length (snd (getSessionsURLHits SESSION_WINDOW_MAX lin)) = 39 \<and>
   snd (getSessionsURLHits SESSION_WINDOW_MAX lin)
     = map (\<lambda>period. page_hits (hits_loop period (zip (fst (snd lin)) (snd (snd (snd lin)))) [] []))
         [1..39] \<and>
   40 \<notin> set [1..SESSION_WINDOW_MAX - 1]"
proof -
  obtain cid urls tss durs where l: "lin = (cid, (urls, tss, durs))"
    by (cases lin) auto
  show ?thesis
    unfolding l by (simp add: getSessionsURLHits_def SESSION_WINDOW_MAX_def)
qed

section \<open>Percentages and averages\<close>

lemma percentage_zero:
  "length x = 7 \<Longrightarrow> j < 7 \<Longrightarrow> x ! 6 = 0 \<Longrightarrow> percentage rnd j x = Inl ZeroDivisionError"
  by (simp add: percentage_def list_get_def)

lemma percentage_nonzero:
  "length x = 7 \<Longrightarrow> j < 7 \<Longrightarrow> x ! 6 \<noteq> 0 \<Longrightarrow> \<exists>v. percentage rnd j x = Inr v"
  by (simp add: percentage_def list_get_def)

lemma collect_zero:
  "\<forall>x \<in> set lsws. length x = 7 \<Longrightarrow> \<exists>x \<in> set lsws. x ! 6 = 0 \<Longrightarrow> j < 7 \<Longrightarrow>
   collect (map (percentage rnd j) lsws) = Inl ZeroDivisionError"
proof (induction lsws)
  case Nil
  then show ?case by simp
next
  case (Cons x lsws)
  from Cons.prems have x: "length x = 7" by simp
  show ?case
  proof (cases "x ! 6 = 0")
    case True
    from percentage_zero [OF x Cons.prems(3) True] show ?thesis
      by simp
  next
    case False
    with Cons.prems have "\<exists>x \<in> set lsws. x ! 6 = 0" by auto
    with Cons have "collect (map (percentage rnd j) lsws) = Inl ZeroDivisionError"
      by simp
    moreover from percentage_nonzero [OF x Cons.prems(3) False]
    obtain v where "percentage rnd j x = Inr v" by blast
    ultimately show ?thesis
      by simp
  qed
qed

text \<open>
  C9. Neither \<^verbatim>\<open>getSessionWindowStats\<close> nor the engagement record of the main program
  guards its division: for tallies of 7 entries, \<^verbatim>\<open>getSessionWindowStats\<close> raises
  ZeroDivisionError when the total (entry 6) of some window is 0, and the engagement record
  raises ZeroDivisionError for a session count of 0. Neither reports the metric as absent.
\<close>

theorem getSessionWindowStats_unguarded:
  assumes "\<forall>x \<in> set lsws. length x = 7" and "\<exists>x \<in> set lsws. x ! 6 = 0"
  shows "getSessionWindowStats rnd lsws = Inl ZeroDivisionError \<and>
         d14_total_engagement rnd (cid, ((hits, 0), dur)) = Inl ZeroDivisionError"
proof -
  have u: "[0..<6] = [0, 1, 2, 3, 4, 5]"
    by (simp add: upt_rec)
  have "collect (map (percentage rnd 0) lsws) = Inl ZeroDivisionError"
    by (rule collect_zero [OF assms]) simp
  then have "getSessionWindowStats rnd lsws = Inl ZeroDivisionError"
    unfolding getSessionWindowStats_def Let_def u by simp
  moreover have "d14_total_engagement rnd (cid, ((hits, 0), dur)) = Inl ZeroDivisionError"
    by (simp add: d14_total_engagement_def)
  ultimately show ?thesis
    by simp
qed

theorem getSessionWindowStats_unguarded_witness:
  "getSessionWindowStats id [[1, 0, 0, 0, 0, 0, 1], [0, 0, 0, 0, 0, 0, 0]]
     = Inl ZeroDivisionError \<and>
   d14_total_engagement id (''c'', ((3, 0), 10)) = Inl ZeroDivisionError"
proof -
  have a: "\<forall>x \<in> set [[1, 0, 0, 0, 0, 0, 1], [0, 0, 0, 0, 0, 0, 0 :: int]]. length x = 7"
    by simp
  have b: "\<exists>x \<in> set [[1, 0, 0, 0, 0, 0, 1], [0, 0, 0, 0, 0, 0, 0 :: int]]. x ! 6 = 0"
    by simp
  from getSessionWindowStats_unguarded [OF a b, of id "''c''" 3 10] show ?thesis .
qed

theorem getSessionWindowStats_zero_total:
  "getSessionWindowStats id [[0, 0, 0, 0, 0, 0, 0]] = Inl ZeroDivisionError \<and>
   d14_total_engagement id (''c'', ((0, 0), 0)) = Inl ZeroDivisionError"
  by (simp add: getSessionWindowStats_def d14_total_engagement_def percentage_def list_get_def
      upt_rec)

end
